theory Spec2Isabelle
  imports Main "HOL-Library.Multiset"
begin

section \<open>Python values and exceptions\<close>

text \<open>
  The solving core of \<^verbatim>\<open>solver.py\<close> and \<^verbatim>\<open>sudosolver.py\<close> is the same code; the
  second file adds \<^verbatim>\<open>is_valid_puzzle\<close>. A \<^verbatim>\<open>Grid\<close> is a list of rows of \<^verbatim>\<open>tk.IntVar\<close>
  cells; every cell object belongs to exactly one row, and \<^verbatim>\<open>cols\<close> and \<^verbatim>\<open>boxes\<close> only
  read the cells, so a grid is modelled by the integers its cells hold, and
  \<^verbatim>\<open>cell.set(v)\<close> by a list update. Exceptions are values of a sum type.
\<close>

datatype value_error = InvalidLiteral | CellCount | RangeStepZero

datatype error = IndexError | ZeroDivisionError | IOError | ValueError value_error

type_synonym grid = "int list list"

text \<open>\<^verbatim>\<open>xs[i]\<close> for an index that is never negative.\<close>

definition nth_py :: "'a list \<Rightarrow> nat \<Rightarrow> error + 'a" where
  "nth_py xs i = (if i < length xs then Inr (xs ! i) else Inl IndexError)"

definition cell_py :: "'a list list \<Rightarrow> nat \<Rightarrow> nat \<Rightarrow> error + 'a" where
  "cell_py g y x = (case nth_py g y of Inl e \<Rightarrow> Inl e | Inr row \<Rightarrow> nth_py row x)"

text \<open>Evaluating a list of fallible reads in order: the first exception is raised.\<close>

fun collect :: "(error + 'a) list \<Rightarrow> error + 'a list" where
  "collect [] = Inr []"
| "collect (r # rs) =
     (case r of Inl e \<Rightarrow> Inl e
      | Inr v \<Rightarrow> (case collect rs of Inl e \<Rightarrow> Inl e | Inr vs \<Rightarrow> Inr (v # vs)))"

text \<open>\<^verbatim>\<open>int(math.sqrt(n))\<close>: the integer part of the square root.\<close>

primrec isqrt :: "nat \<Rightarrow> nat" where
  "isqrt 0 = 0"
| "isqrt (Suc n) = (let r = isqrt n in if Suc r * Suc r \<le> Suc n then Suc r else r)"

text \<open>\<^verbatim>\<open>range(0, stop, step)\<close> with a step that is never negative.\<close>

definition range_step :: "nat \<Rightarrow> nat \<Rightarrow> error + nat list" where
  "range_step stop step =
     (if step = 0 then Inl (ValueError RangeStepZero)
      else Inr (map (\<lambda>k. k * step) [0..<(stop + step - 1) div step]))"

text \<open>\<^verbatim>\<open>xs[a:b]\<close> for bounds that are never negative.\<close>

definition slice :: "'a list \<Rightarrow> nat \<Rightarrow> nat \<Rightarrow> 'a list" where
  "slice xs a b = take (b - a) (drop a xs)"

section \<open>Peers\<close>

definition get_bound_box :: "nat \<times> nat \<Rightarrow> nat \<Rightarrow> error + nat \<times> nat \<times> nat" where
  "get_bound_box coords grid_size =
     (case coords of (y, x) \<Rightarrow>
        let box_width = isqrt grid_size
        in if box_width = 0 then Inl ZeroDivisionError
           else Inr (y - y mod box_width, x - x mod box_width, box_width))"

definition get_peers :: "grid \<Rightarrow> nat \<times> nat \<Rightarrow> error + int set" where
  "get_peers g coords =
     (case coords of (y0, x0) \<Rightarrow>
      case nth_py g y0 of Inl e \<Rightarrow> Inl e | Inr row0 \<Rightarrow>
      case collect (map (\<lambda>(y, row). nth_py row x0)
                        (filter (\<lambda>(y, row). y \<noteq> y0) (enumerate 0 g)))
      of Inl e \<Rightarrow> Inl e | Inr col_vals \<Rightarrow>
      case get_bound_box (y0, x0) (length g) of
        Inl e \<Rightarrow> Inl e
      | Inr (box_top, box_left, box_size) \<Rightarrow>
      case collect (map (\<lambda>(y, x). cell_py g y x)
                        [(y, x). y \<leftarrow> [box_top..<box_top + box_size],
                                 x \<leftarrow> [box_left..<box_left + box_size],
                                 y \<noteq> y0 \<and> x \<noteq> x0])
      of Inl e \<Rightarrow> Inl e | Inr box_vals \<Rightarrow>
      Inr (set (map snd (filter (\<lambda>(x, cell). x \<noteq> x0) (enumerate 0 row0)))
           \<union> set col_vals \<union> set box_vals))"

section \<open>Divisions\<close>

text \<open>\<^verbatim>\<open>zip(*grid)\<close> stops at the shortest row and yields nothing for no rows.\<close>

fun min_len :: "'a list list \<Rightarrow> nat" where
  "min_len [] = 0"
| "min_len [r] = length r"
| "min_len (r # rs) = min (length r) (min_len rs)"

definition cols :: "'a list list \<Rightarrow> 'a list list" where
  "cols g = map (\<lambda>x. map (\<lambda>row. row ! x) g) [0..<min_len g]"

definition boxes :: "'a list list \<Rightarrow> error + 'a list list" where
  "boxes g =
     (let box_width_cells = isqrt (length g)
      in case range_step (length g) box_width_cells of Inl e \<Rightarrow> Inl e | Inr starts \<Rightarrow>
         collect (map (\<lambda>(y0, x0).
                    case collect (map (nth_py g) [y0..<y0 + box_width_cells]) of
                      Inl e \<Rightarrow> Inl e
                    | Inr rows \<Rightarrow> Inr (concat (map (\<lambda>row. slice row x0 (x0 + box_width_cells)) rows)))
                  [(y0, x0). y0 \<leftarrow> starts, x0 \<leftarrow> starts]))"

section \<open>Solve\<close>

definition set_cell :: "grid \<Rightarrow> nat \<Rightarrow> nat \<Rightarrow> int \<Rightarrow> grid" where
  "set_cell g y x v = g[y := (g ! y)[x := v]]"

text \<open>The cells the two nested \<^verbatim>\<open>for\<close> loops of \<^verbatim>\<open>solve\<close> visit, in order.\<close>

definition scan_cells :: "grid \<Rightarrow> nat \<Rightarrow> nat \<Rightarrow> (nat \<times> nat) list" where
  "scan_cells g y0 x0 =
     [(y, x). y \<leftarrow> [y0..<length g], x \<leftarrow> [(if y = y0 then x0 else 0)..<length (g ! y)]]"

definition find_empty :: "grid \<Rightarrow> nat \<Rightarrow> nat \<Rightarrow> (nat \<times> nat) option" where
  "find_empty g y0 x0 = find (\<lambda>(y, x). g ! y ! x = 0) (scan_cells g y0 x0)"

text \<open>
  The result of a call: \<open>None\<close> when the allowed recursion depth is used up, otherwise
  the exception raised or the returned boolean with the grid as the call leaves it.
\<close>

type_synonym outcome = "(error + bool \<times> grid) option"

text \<open>
  The loop over the digits of the cell \<open>(y, x)\<close>; \<open>rec\<close> is the recursive call
  \<^verbatim>\<open>solve(grid, y0=y, x0=x)\<close>. The grid is threaded through the iterations, and
  \<open>peer_set\<close> is the set computed once before the loop.
\<close>

fun try_digits :: "(grid \<Rightarrow> outcome) \<Rightarrow> int set \<Rightarrow> nat \<Rightarrow> nat \<Rightarrow> int list \<Rightarrow> grid \<Rightarrow> outcome" where
  "try_digits rec peer_set y x [] g = Some (Inr (False, set_cell g y x 0))"
| "try_digits rec peer_set y x (digit # digits) g =
     (if digit \<notin> peer_set then
        (case rec (set_cell g y x digit) of
           None \<Rightarrow> None
         | Some (Inl e) \<Rightarrow> Some (Inl e)
         | Some (Inr (solved, g')) \<Rightarrow>
             if solved then Some (Inr (True, g')) else try_digits rec peer_set y x digits g')
      else try_digits rec peer_set y x digits g)"

definition solve_body :: "(grid \<Rightarrow> nat \<Rightarrow> nat \<Rightarrow> outcome) \<Rightarrow> grid \<Rightarrow> nat \<Rightarrow> nat \<Rightarrow> outcome" where
  "solve_body rec g y0 x0 =
     (case find_empty g y0 x0 of
        None \<Rightarrow> Some (Inr (True, g))
      | Some (y, x) \<Rightarrow>
          (case get_peers g (y, x) of
             Inl e \<Rightarrow> Some (Inl e)
           | Inr peer_set \<Rightarrow>
               try_digits (\<lambda>g'. rec g' y x) peer_set y x (map int [1..<length g + 1]) g))"

text \<open>
  \<open>solve_fuel n\<close> is \<^verbatim>\<open>solve\<close> run with at most \<open>n\<close> nested recursive calls below
  the outermost one.
\<close>

primrec solve_fuel :: "nat \<Rightarrow> grid \<Rightarrow> nat \<Rightarrow> nat \<Rightarrow> outcome" where
  "solve_fuel 0 = solve_body (\<lambda>g y x. None)"
| "solve_fuel (Suc n) = solve_body (solve_fuel n)"

text \<open>The grids on which the digit loop makes its recursive calls, in order.\<close>

fun digit_calls :: "(grid \<Rightarrow> outcome) \<Rightarrow> int set \<Rightarrow> nat \<Rightarrow> nat \<Rightarrow> int list \<Rightarrow> grid \<Rightarrow> grid list" where
  "digit_calls rec peer_set y x [] g = []"
| "digit_calls rec peer_set y x (digit # digits) g =
     (if digit \<notin> peer_set then
        set_cell g y x digit #
        (case rec (set_cell g y x digit) of
           Some (Inr (solved, g')) \<Rightarrow>
             if solved then [] else digit_calls rec peer_set y x digits g'
         | _ \<Rightarrow> [])
      else digit_calls rec peer_set y x digits g)"

definition is_solved :: "grid \<Rightarrow> error + bool" where
  "is_solved g =
     (let all_digits = set (map int [1..<length g + 1])
      in case boxes g of Inl e \<Rightarrow> Inl e
         | Inr bs \<Rightarrow> Inr (list_all (\<lambda>group. set group = all_digits) (g @ cols g @ bs)))"

definition is_valid_puzzle :: "grid \<Rightarrow> error + bool" where
  "is_valid_puzzle g =
     (case boxes g of Inl e \<Rightarrow> Inl e
      | Inr bs \<Rightarrow>
          Inr (list_all (\<lambda>group. let digits_in_group = filter (\<lambda>v. v \<noteq> 0) group
                                 in \<not> length digits_in_group \<noteq> card (set digits_in_group))
                        (g @ cols g @ bs)))"

section \<open>Reading and writing grid files\<close>

text \<open>
  A file is modelled by its content, a Python string: a list of Unicode code points.
  The cells of a raw grid are Python objects: \<^verbatim>\<open>write_grid\<close> applies \<^verbatim>\<open>str\<close> to them and
  \<^verbatim>\<open>read_grid\<close> appends characters of the content to its result.
\<close>

type_synonym pystr = "nat list"

datatype pyval = PInt int | PStr pystr

text \<open>
  \<^verbatim>\<open>str.isspace\<close> and \<^verbatim>\<open>int\<close> consult the Unicode character database of the Python build,
  which is not part of the repository: the database is a parameter of the model.
  \<open>to_decimal\<close> gives the decimal digit value of a code point that has one (\<^verbatim>\<open>int\<close> accepts
  every such character, not only the ASCII digits), and \<open>is_space\<close> tells whether
  \<^verbatim>\<open>str.isspace\<close> holds of a code point.
\<close>

record ucd =
  to_decimal :: "nat \<Rightarrow> nat option"
  is_space :: "nat \<Rightarrow> bool"

text \<open>
  What every version of the database satisfies: the ASCII digits have their values, a
  decimal digit value is below ten, no whitespace character is a decimal digit, and tab,
  line feed, vertical tab, form feed, carriage return and space are whitespace.
\<close>

definition ucd_ok :: "ucd \<Rightarrow> bool" where
  "ucd_ok u =
     ((\<forall>c. 48 \<le> c \<and> c \<le> 57 \<longrightarrow> to_decimal u c = Some (c - 48))
      \<and> (\<forall>c v. to_decimal u c = Some v \<longrightarrow> v < 10)
      \<and> (\<forall>c. is_space u c \<longrightarrow> to_decimal u c = None)
      \<and> (\<forall>c \<in> {9, 10, 11, 12, 13, 32}. is_space u c))"

text \<open>
  A fragment of the database to run examples on: the ASCII and the Arabic-Indic digits
  (U+0660 to U+0669), and the whitespace characters of Unicode.
\<close>

definition basic_ucd :: ucd where
  "basic_ucd =
     \<lparr>to_decimal = (\<lambda>c. if 48 \<le> c \<and> c \<le> 57 then Some (c - 48)
                        else if 1632 \<le> c \<and> c \<le> 1641 then Some (c - 1632) else None),
      is_space = (\<lambda>c. c \<in> {9, 10, 11, 12, 13, 28, 29, 30, 31, 32, 133, 160, 5760,
                              8232, 8233, 8239, 8287, 12288}
                       \<or> (8192 \<le> c \<and> c \<le> 8202))\<rparr>"

text \<open>The code points of a string literal.\<close>

definition codes :: "string \<Rightarrow> pystr" where
  "codes s = map of_char s"

text \<open>
  \<^verbatim>\<open>int(c)\<close> for a string of one character: its decimal digit value, or \<^verbatim>\<open>ValueError\<close>.
\<close>

definition int_of_char :: "ucd \<Rightarrow> nat \<Rightarrow> error + nat" where
  "int_of_char u c =
     (case to_decimal u c of None \<Rightarrow> Inl (ValueError InvalidLiteral) | Some v \<Rightarrow> Inr v)"

fun str_nat :: "nat \<Rightarrow> pystr" where
  "str_nat n = (if n < 10 then [48 + n] else str_nat (n div 10) @ [48 + n mod 10])"

declare str_nat.simps [simp del]

definition str_int :: "int \<Rightarrow> pystr" where
  "str_int i = (if i < 0 then 45 # str_nat (nat (- i)) else str_nat (nat i))"

fun py_str :: "pyval \<Rightarrow> pystr" where
  "py_str (PInt i) = str_int i"
| "py_str (PStr s) = s"

fun join :: "pystr \<Rightarrow> pystr list \<Rightarrow> pystr" where
  "join sep [] = []"
| "join sep [s] = s"
| "join sep (s # t # ss) = s @ sep @ join sep (t # ss)"

definition split_list :: "'a list \<Rightarrow> nat \<Rightarrow> error + 'a list list" where
  "split_list lst max_size =
     (case range_step (length lst) max_size of
        Inl e \<Rightarrow> Inl e
      | Inr starts \<Rightarrow> Inr (map (\<lambda>i. slice lst i (i + max_size)) starts))"

text \<open>The loop of \<^verbatim>\<open>read_grid\<close> over \<^verbatim>\<open>content[1:]\<close>.\<close>

fun flatten_cells :: "ucd \<Rightarrow> pystr set \<Rightarrow> pystr \<Rightarrow> error + pyval list" where
  "flatten_cells u valid_digits [] = Inr []"
| "flatten_cells u valid_digits (c # cs) =
     (if \<not> is_space u c then
        (if [c] \<in> valid_digits then
           (case flatten_cells u valid_digits cs of
              Inl e \<Rightarrow> Inl e
            | Inr flattened_grid \<Rightarrow> Inr (PStr [c] # flattened_grid))
         else Inl IOError)
      else flatten_cells u valid_digits cs)"

definition read_grid :: "ucd \<Rightarrow> pystr \<Rightarrow> error + pyval list list" where
  "read_grid u content =
     (case content of
        [] \<Rightarrow> Inl IndexError
      | c0 # rest \<Rightarrow>
          (case int_of_char u c0 of
             Inl e \<Rightarrow> Inl e
           | Inr width \<Rightarrow>
               (case flatten_cells u (set (map str_nat [0..<width + 1])) rest of
                  Inl e \<Rightarrow> Inl e
                | Inr flattened_grid \<Rightarrow>
                    if length flattened_grid \<noteq> width ^ 2 then Inl (ValueError CellCount)
                    else split_list flattened_grid width)))"

definition write_grid :: "pyval list list \<Rightarrow> pystr" where
  "write_grid g =
     str_nat (length g) @ [10]
     @ join [10] (map (\<lambda>row. join [32, 32] (map py_str row)) g)"

text \<open>
  The characters after the first that \<^verbatim>\<open>read_grid\<close> keeps (all but whitespace), a character
  that is neither whitespace nor one of the digits \<^verbatim>\<open>0\<close> to \<^verbatim>\<open>str(w)\<close>, and a list of \<open>w * w\<close>
  cells in row-major order cut into \<open>w\<close> rows of \<open>w\<close> cells.
\<close>

definition cell_chars :: "ucd \<Rightarrow> pystr \<Rightarrow> pystr" where
  "cell_chars u rest = filter (\<lambda>ch. \<not> is_space u ch) rest"

definition bad_char :: "ucd \<Rightarrow> nat \<Rightarrow> nat \<Rightarrow> bool" where
  "bad_char u w ch = (\<not> is_space u ch \<and> \<not> (48 \<le> ch \<and> ch \<le> 48 + w))"

definition rows_of :: "'a list \<Rightarrow> nat \<Rightarrow> 'a list list" where
  "rows_of cells w = map (\<lambda>k. take w (drop (k * w) cells)) [0..<w]"

section \<open>Well-formed grids and the groups of the specification\<close>

text \<open>
  A grid of width \<open>N = b * b\<close> with box width \<open>b > 0\<close>: \<open>N\<close> rows of \<open>N\<close> cells.
\<close>

definition wf_grid :: "'a list list \<Rightarrow> nat \<Rightarrow> bool" where
  "wf_grid g b = (0 < b \<and> length g = b * b \<and> (\<forall>row \<in> set g. length row = b * b))"

text \<open>
  The groups as the specification describes them, by coordinates: column \<open>x\<close> holds the
  cells \<open>(y, x)\<close> of every row \<open>y\<close>; box \<open>(p, q)\<close> holds the cells
  \<open>(p * b + i, q * b + j)\<close> for \<open>i, j < b\<close>, row by row; the boxes are listed left to
  right, top to bottom.
\<close>

definition spec_col :: "'a list list \<Rightarrow> nat \<Rightarrow> 'a list" where
  "spec_col g x = map (\<lambda>y. g ! y ! x) [0..<length g]"

definition spec_box :: "'a list list \<Rightarrow> nat \<Rightarrow> nat \<Rightarrow> nat \<Rightarrow> 'a list" where
  "spec_box g b p q = concat (map (\<lambda>i. map (\<lambda>j. g ! (p * b + i) ! (q * b + j)) [0..<b]) [0..<b])"

definition spec_boxes :: "'a list list \<Rightarrow> nat \<Rightarrow> 'a list list" where
  "spec_boxes g b = concat (map (\<lambda>p. map (\<lambda>q. spec_box g b p q) [0..<b]) [0..<b])"

text \<open>
  All \<open>3N\<close> groups of a grid: its rows, its columns and its boxes.
\<close>

definition spec_groups :: "'a list list \<Rightarrow> nat \<Rightarrow> 'a list list" where
  "spec_groups g b = g @ map (spec_col g) [0..<b * b] @ spec_boxes g b"

text \<open>
  Cells by coordinates \<open>(row, column)\<close>, and the coordinates that make up each group.
\<close>

definition cell_val :: "'a list list \<Rightarrow> nat \<times> nat \<Rightarrow> 'a" where
  "cell_val g c = g ! fst c ! snd c"

definition in_grid :: "nat \<Rightarrow> nat \<times> nat \<Rightarrow> bool" where
  "in_grid b c = (fst c < b * b \<and> snd c < b * b)"

definition row_cells :: "nat \<Rightarrow> nat \<Rightarrow> (nat \<times> nat) list" where
  "row_cells n y = map (\<lambda>x. (y, x)) [0..<n]"

definition col_cells :: "nat \<Rightarrow> nat \<Rightarrow> (nat \<times> nat) list" where
  "col_cells n x = map (\<lambda>y. (y, x)) [0..<n]"

definition box_cells :: "nat \<Rightarrow> nat \<Rightarrow> nat \<Rightarrow> (nat \<times> nat) list" where
  "box_cells b p q = map (\<lambda>(i, j). (p * b + i, q * b + j)) (List.product [0..<b] [0..<b])"

definition group_cells :: "nat \<Rightarrow> (nat \<times> nat) list list" where
  "group_cells b =
     map (row_cells (b * b)) [0..<b * b] @ map (col_cells (b * b)) [0..<b * b]
     @ map (\<lambda>(p, q). box_cells b p q) (List.product [0..<b] [0..<b])"

text \<open>
  The peers of a cell are the other cells of its row, of its column and of its box.
\<close>

definition same_box :: "nat \<Rightarrow> nat \<times> nat \<Rightarrow> nat \<times> nat \<Rightarrow> bool" where
  "same_box b c c' = (fst c' div b = fst c div b \<and> snd c' div b = snd c div b)"

definition is_peer :: "nat \<Rightarrow> nat \<times> nat \<Rightarrow> nat \<times> nat \<Rightarrow> bool" where
  "is_peer b c c' = (c' \<noteq> c \<and> (fst c' = fst c \<or> snd c' = snd c \<or> same_box b c c'))"

definition peer_values :: "int list list \<Rightarrow> nat \<Rightarrow> nat \<times> nat \<Rightarrow> int set" where
  "peer_values g b c = {cell_val g c' | c'. in_grid b c' \<and> is_peer b c c'}"

text \<open>
  The three parts of the peer set as the specification describes them: the values of the row
  except the cell itself, the values of the column except the cell itself, and the values of
  the cells of the box that lie in another row and in another column.
\<close>

definition row_peers :: "int list list \<Rightarrow> nat \<Rightarrow> nat \<times> nat \<Rightarrow> int set" where
  "row_peers g b c = {g ! fst c ! x | x. x < b * b \<and> x \<noteq> snd c}"

definition col_peers :: "int list list \<Rightarrow> nat \<Rightarrow> nat \<times> nat \<Rightarrow> int set" where
  "col_peers g b c = {g ! y ! snd c | y. y < b * b \<and> y \<noteq> fst c}"

definition box_peers :: "int list list \<Rightarrow> nat \<Rightarrow> nat \<times> nat \<Rightarrow> int set" where
  "box_peers g b c =
     {g ! y ! x | y x. y < b * b \<and> x < b * b \<and> y div b = fst c div b \<and> x div b = snd c div b
                       \<and> y \<noteq> fst c \<and> x \<noteq> snd c}"

text \<open>
  No two peers hold the same non-zero value.
\<close>

definition consistent :: "int list list \<Rightarrow> nat \<Rightarrow> bool" where
  "consistent g b =
     (\<forall>c c'. in_grid b c \<and> in_grid b c' \<and> is_peer b c c' \<and> cell_val g c \<noteq> 0
             \<longrightarrow> cell_val g c \<noteq> cell_val g c')"

section \<open>Square roots, ranges and slices\<close>

lemma isqrt_bounds: "isqrt n * isqrt n \<le> n \<and> n < Suc (isqrt n) * Suc (isqrt n)"
  by (induction n) (auto simp: Let_def)

lemma isqrt_square: "isqrt (b * b) = b"
proof -
  let ?r = "isqrt (b * b)"
  have le: "?r * ?r \<le> b * b" and lt: "b * b < Suc ?r * Suc ?r"
    using isqrt_bounds [of "b * b"] by auto
  have "?r \<le> b"
  proof (rule ccontr)
    assume "\<not> ?r \<le> b"
    then have "Suc b \<le> ?r" by linarith
    then have "Suc b * Suc b \<le> ?r * ?r" by (intro mult_le_mono)
    with le show False by simp
  qed
  moreover have "b \<le> ?r"
  proof (rule ccontr)
    assume "\<not> b \<le> ?r"
    then have "Suc ?r \<le> b" by linarith
    then have "Suc ?r * Suc ?r \<le> b * b" by (intro mult_le_mono)
    with lt show False by simp
  qed
  ultimately show ?thesis by simp
qed

lemma collect_Inr:
  "(\<And>x. x \<in> set xs \<Longrightarrow> h x = Inr (f x)) \<Longrightarrow> collect (map h xs) = Inr (map f xs)"
  by (induction xs) auto

lemma range_step_square: "0 < b \<Longrightarrow> range_step (b * b) b = Inr (map (\<lambda>k. k * b) [0..<b])"
proof -
  assume b: "0 < b"
  have "(b * b + b - 1) div b = b"
  proof (rule div_nat_eqI)
    show "b * b \<le> b * b + b - 1" using b by simp
    show "b * b + b - 1 < b * Suc b" using b by simp
  qed
  then show ?thesis using b by (simp add: range_step_def)
qed

lemma slice_nth: "a + n \<le> length xs \<Longrightarrow> slice xs a (a + n) = map (\<lambda>j. xs ! (a + j)) [0..<n]"
  by (rule nth_equalityI) (auto simp: slice_def)

lemma min_len_const: "g \<noteq> [] \<Longrightarrow> \<forall>row \<in> set g. length row = n \<Longrightarrow> min_len g = n"
  by (induction g rule: min_len.induct) auto

lemma wf_grid_nonempty: "wf_grid g b \<Longrightarrow> g \<noteq> []"
  by (auto simp: wf_grid_def)

lemma box_index_bound: "p < b \<Longrightarrow> i < b \<Longrightarrow> p * b + i < b * (b::nat)"
proof -
  assume p: "p < b" and i: "i < b"
  have "p * b + i < p * b + b" using i by simp
  also have "\<dots> = Suc p * b" by simp
  also have "\<dots> \<le> b * b" using p by (intro mult_le_mono) auto
  finally show ?thesis .
qed

section \<open>Columns and boxes of a well-formed grid\<close>

lemma cols_wf: "wf_grid g b \<Longrightarrow> cols g = map (spec_col g) [0..<b * b]"
proof -
  assume wf: "wf_grid g b"
  then have ml: "min_len g = b * b"
    using min_len_const [of g "b * b"] wf_grid_nonempty [OF wf] by (simp add: wf_grid_def)
  have "map (\<lambda>row. row ! x) g = map (\<lambda>y. g ! y ! x) [0..<length g]" for x
    by (rule nth_equalityI) auto
  then show ?thesis by (simp add: cols_def ml spec_col_def)
qed

lemma box_read:
  assumes wf: "wf_grid g b" and p: "p < b" and q: "q < b"
  shows "(case collect (map (nth_py g) [p * b..<p * b + b]) of
               Inl e \<Rightarrow> Inl e
             | Inr rows \<Rightarrow> Inr (concat (map (\<lambda>row. slice row (q * b) (q * b + b)) rows)))
             = Inr (spec_box g b p q)"
proof -
  from wf have b: "0 < b" and len: "length g = b * b"
    and rows: "\<And>y. y < b * b \<Longrightarrow> length (g ! y) = b * b"
    by (auto simp: wf_grid_def)
  have rowsread: "collect (map (nth_py g) [p * b..<p * b + b]) = Inr (map (\<lambda>y. g ! y) [p * b..<p * b + b])"
  proof (rule collect_Inr)
    fix y assume "y \<in> set [p * b..<p * b + b]"
    then have "y < p * b + b" by simp
    moreover have "p * b + b \<le> b * b"
      using box_index_bound [of p b "b - 1"] p b by simp
    ultimately show "nth_py g y = Inr (g ! y)" by (simp add: nth_py_def len)
  qed
  have qb: "q * b + b \<le> b * b"
    using box_index_bound [of q b "b - 1"] q b by simp
  have "map (\<lambda>row. slice row (q * b) (q * b + b)) (map (\<lambda>y. g ! y) [p * b..<p * b + b])
        = map (\<lambda>i. map (\<lambda>j. g ! (p * b + i) ! (q * b + j)) [0..<b]) [0..<b]"
  proof (rule nth_equalityI)
    show "length (map (\<lambda>row. slice row (q * b) (q * b + b)) (map (\<lambda>y. g ! y) [p * b..<p * b + b]))
          = length (map (\<lambda>i. map (\<lambda>j. g ! (p * b + i) ! (q * b + j)) [0..<b]) [0..<b])"
      by simp
  next
    fix i
    assume "i < length (map (\<lambda>row. slice row (q * b) (q * b + b)) (map (\<lambda>y. g ! y) [p * b..<p * b + b]))"
    then have i: "i < b" by simp
    then have "length (g ! (p * b + i)) = b * b"
      using rows box_index_bound [OF p i] by simp
    then have "slice (g ! (p * b + i)) (q * b) (q * b + b)
               = map (\<lambda>j. g ! (p * b + i) ! (q * b + j)) [0..<b]"
      using qb by (intro slice_nth) simp
    then show "map (\<lambda>row. slice row (q * b) (q * b + b)) (map (\<lambda>y. g ! y) [p * b..<p * b + b]) ! i
               = map (\<lambda>i. map (\<lambda>j. g ! (p * b + i) ! (q * b + j)) [0..<b]) [0..<b] ! i"
      using i by simp
  qed
  then show ?thesis by (simp add: rowsread spec_box_def)
qed

lemma boxes_wf: "wf_grid g b \<Longrightarrow> boxes g = Inr (spec_boxes g b)"
proof -
  assume wf: "wf_grid g b"
  then have b: "0 < b" and len: "length g = b * b"
    by (auto simp: wf_grid_def)
  let ?h = "\<lambda>(y0, x0).
                    case collect (map (nth_py g) [y0..<y0 + b]) of
                      Inl e \<Rightarrow> Inl e
                    | Inr rows \<Rightarrow> Inr (concat (map (\<lambda>row. slice row x0 (x0 + b)) rows))"
  let ?starts = "concat (map (\<lambda>y0. map (Pair y0) (map (\<lambda>k. k * b) [0..<b])) (map (\<lambda>k. k * b) [0..<b]))"
  have "collect (map ?h ?starts) = Inr (map (\<lambda>(y0, x0). spec_box g b (y0 div b) (x0 div b)) ?starts)"
  proof (rule collect_Inr)
    fix c assume "c \<in> set ?starts"
    then obtain p q where c: "c = (p * b, q * b)" and p: "p < b" and q: "q < b" by auto
    show "?h c = Inr ((\<lambda>(y0, x0). spec_box g b (y0 div b) (x0 div b)) c)"
      using box_read [OF wf p q] b by (simp add: c)
  qed
  moreover have "map (\<lambda>(y0, x0). spec_box g b (y0 div b) (x0 div b)) ?starts = spec_boxes g b"
    using b by (simp add: spec_boxes_def map_concat comp_def)
  ultimately show ?thesis
    by (simp add: boxes_def len isqrt_square range_step_square [OF b])
qed

section \<open>Groups, validity and the solved state\<close>

lemma concat_map_product:
  "concat (map (\<lambda>i. map (\<lambda>j. f i j) ys) xs) = map (\<lambda>(i, j). f i j) (List.product xs ys)"
  by (induction xs) (simp_all add: comp_def)

lemma spec_box_cells: "spec_box g b p q = map (cell_val g) (box_cells b p q)"
  unfolding spec_box_def box_cells_def concat_map_product
  by (simp add: cell_val_def split_beta)

lemma spec_boxes_cells:
  "spec_boxes g b = map (map (cell_val g)) (map (\<lambda>(p, q). box_cells b p q) (List.product [0..<b] [0..<b]))"
  unfolding spec_boxes_def concat_map_product
  by (simp add: spec_box_cells split_beta)

lemma spec_col_cells: "length g = n \<Longrightarrow> spec_col g x = map (cell_val g) (col_cells n x)"
  by (simp add: spec_col_def col_cells_def cell_val_def comp_def)

lemma rows_cells:
  assumes "wf_grid g b"
  shows "g = map (map (cell_val g)) (map (row_cells (b * b)) [0..<b * b])"
proof (rule nth_equalityI)
  show "length g = length (map (map (cell_val g)) (map (row_cells (b * b)) [0..<b * b]))"
    using assms by (simp add: wf_grid_def)
next
  fix y assume "y < length g"
  then have y: "y < b * b" and len: "length (g ! y) = b * b"
    using assms by (auto simp: wf_grid_def)
  have "map (\<lambda>x. g ! y ! x) [0..<length (g ! y)] = g ! y" by (rule map_nth)
  then show "g ! y = map (map (cell_val g)) (map (row_cells (b * b)) [0..<b * b]) ! y"
    using y len by (simp add: row_cells_def cell_val_def comp_def)
qed

lemma groups_wf:
  assumes "wf_grid g b"
  shows "boxes g = Inr (spec_boxes g b)" and "g @ cols g @ spec_boxes g b = spec_groups g b"
proof -
  show "boxes g = Inr (spec_boxes g b)" using assms by (rule boxes_wf)
  show "g @ cols g @ spec_boxes g b = spec_groups g b"
    by (simp only: spec_groups_def cols_wf [OF assms])
qed

lemma spec_groups_cells:
  assumes "wf_grid g b"
  shows "spec_groups g b = map (map (cell_val g)) (group_cells b)"
proof -
  have len: "length g = b * b" using assms by (simp add: wf_grid_def)
  have "map (spec_col g) [0..<b * b] = map (map (cell_val g)) (map (col_cells (b * b)) [0..<b * b])"
    using spec_col_cells [OF len] by (simp add: comp_def)
  then have "g @ map (spec_col g) [0..<b * b] @ spec_boxes g b
             = map (map (cell_val g)) (map (row_cells (b * b)) [0..<b * b])
               @ map (map (cell_val g)) (map (col_cells (b * b)) [0..<b * b])
               @ map (map (cell_val g)) (map (\<lambda>(p, q). box_cells b p q) (List.product [0..<b] [0..<b]))"
    using rows_cells [OF assms] spec_boxes_cells [of g b] by simp
  then show ?thesis
    by (simp add: spec_groups_def group_cells_def)
qed

lemma group_cells_cases:
  assumes "cs \<in> set (group_cells b)"
  obtains y where "y < b * b" and "cs = row_cells (b * b) y"
  | x where "x < b * b" and "cs = col_cells (b * b) x"
  | p q where "p < b" and "q < b" and "cs = box_cells b p q"
proof -
  from assms have "cs \<in> row_cells (b * b) ` {0..<b * b} \<or> cs \<in> col_cells (b * b) ` {0..<b * b}
      \<or> cs \<in> (\<lambda>(p, q). box_cells b p q) ` ({0..<b} \<times> {0..<b})"
    by (simp add: group_cells_def)
  then show thesis using that by auto
qed

lemma group_cells_length: "cs \<in> set (group_cells b) \<Longrightarrow> length cs = b * b"
  by (erule group_cells_cases) (simp_all add: row_cells_def col_cells_def box_cells_def)

lemma spec_groups_length:
  "wf_grid g b \<Longrightarrow> grp \<in> set (spec_groups g b) \<Longrightarrow> length grp = b * b"
  by (auto simp: spec_groups_cells group_cells_length)

lemma digits_card: "card (set (map int [1..<n + 1])) = n"
proof -
  have "distinct (map int [1..<n + 1])" by (simp add: distinct_map)
  then have "card (set (map int [1..<n + 1])) = length (map int [1..<n + 1])"
    by (rule distinct_card)
  then show ?thesis by simp
qed

lemma set_digits_iff_perm:
  assumes "length xs = n"
  shows "set xs = set (map int [1..<n + 1]) \<longleftrightarrow> mset xs = mset (map int [1..<n + 1])"
proof
  assume s: "set xs = set (map int [1..<n + 1])"
  have d: "distinct (map int [1..<n + 1])" by (simp add: distinct_map)
  have "card (set xs) = length xs" using s assms digits_card [of n] by simp
  then have "distinct xs" by (rule card_distinct)
  then show "mset xs = mset (map int [1..<n + 1])"
    using set_eq_iff_mset_eq_distinct [OF _ d] s by blast
next
  assume "mset xs = mset (map int [1..<n + 1])"
  then show "set xs = set (map int [1..<n + 1])" by (rule mset_eq_setD)
qed

lemma is_solved_wf:
  assumes "wf_grid g b"
  shows "is_solved g = Inr (\<forall>grp \<in> set (spec_groups g b). set grp = set (map int [1..<b * b + 1]))"
proof -
  have len: "length g = b * b" using assms by (simp add: wf_grid_def)
  show ?thesis
    unfolding is_solved_def Let_def groups_wf(1) [OF assms] sum.case groups_wf(2) [OF assms] len
    by (simp only: list_all_iff)
qed

text \<open>
  Claim C6. For a grid of width \<open>N = b * b\<close> with \<open>b > 0\<close>, \<^verbatim>\<open>is_solved\<close> returns true
  if and only if every row, every column and every box is a permutation of \<open>1..N\<close>.
\<close>

theorem is_solved_iff_permutations:
  assumes "wf_grid g b"
  shows "is_solved g = Inr (\<forall>grp \<in> set (spec_groups g b). mset grp = mset (map int [1..<b * b + 1]))"
proof -
  have "(\<forall>grp \<in> set (spec_groups g b). set grp = set (map int [1..<b * b + 1]))
        = (\<forall>grp \<in> set (spec_groups g b). mset grp = mset (map int [1..<b * b + 1]))"
    using set_digits_iff_perm [OF spec_groups_length [OF assms]] by blast
  then show ?thesis by (simp only: is_solved_wf [OF assms])
qed

theorem is_solved_iff_permutations_witness:
  "wf_grid [[1, 2, 3, 4], [3, 4, 1, 2], [2, 1, 4, 3], [4, 3, 2, 1 :: int]] 2
   \<and> is_solved [[1, 2, 3, 4], [3, 4, 1, 2], [2, 1, 4, 3], [4, 3, 2, 1]] = Inr True
   \<and> list_all (\<lambda>grp. mset grp = mset (map int [1..<2 * 2 + 1]))
         (spec_groups [[1, 2, 3, 4], [3, 4, 1, 2], [2, 1, 4, 3], [4, 3, 2, 1 :: int]] 2)"
proof -
  let ?g = "[[1, 2, 3, 4], [3, 4, 1, 2], [2, 1, 4, 3], [4, 3, 2, 1 :: int]]"
  have wf: "wf_grid ?g 2" by (simp add: wf_grid_def)
  have s: "is_solved ?g = Inr True" by code_simp
  from is_solved_iff_permutations [OF wf] s wf show ?thesis by (simp add: list_all_iff)
qed

lemma distinct_filter_count:
  "distinct (filter P xs) \<longleftrightarrow> (\<forall>v. P v \<longrightarrow> count_list xs v \<le> 1)"
proof (induction xs)
  case Nil
  show ?case by simp
next
  case (Cons x xs)
  show ?case
  proof (cases "P x")
    case False
    then have "(\<forall>v. P v \<longrightarrow> count_list (x # xs) v \<le> 1) = (\<forall>v. P v \<longrightarrow> count_list xs v \<le> 1)"
      by auto
    with False Cons show ?thesis by simp
  next
    case True
    have "(\<forall>v. P v \<longrightarrow> count_list (x # xs) v \<le> 1)
          = (count_list xs x = 0 \<and> (\<forall>v. P v \<longrightarrow> count_list xs v \<le> 1))"
    proof
      assume a: "\<forall>v. P v \<longrightarrow> count_list (x # xs) v \<le> 1"
      from a True have "count_list (x # xs) x \<le> 1" by blast
      then have "count_list xs x = 0" by simp
      moreover have "count_list xs v \<le> 1" if "P v" for v
      proof -
        from a that have "count_list (x # xs) v \<le> 1" by blast
        then show ?thesis by (simp split: if_splits)
      qed
      ultimately show "count_list xs x = 0 \<and> (\<forall>v. P v \<longrightarrow> count_list xs v \<le> 1)" by blast
    next
      assume a: "count_list xs x = 0 \<and> (\<forall>v. P v \<longrightarrow> count_list xs v \<le> 1)"
      show "\<forall>v. P v \<longrightarrow> count_list (x # xs) v \<le> 1"
      proof (intro allI impI)
        fix v assume "P v"
        with a show "count_list (x # xs) v \<le> 1" by (cases "v = x") auto
      qed
    qed
    moreover have "distinct (filter P (x # xs)) = (x \<notin> set xs \<and> distinct (filter P xs))"
      using True by simp
    ultimately show ?thesis using Cons by (simp add: count_list_0_iff)
  qed
qed

lemma is_valid_puzzle_wf:
  assumes "wf_grid g b"
  shows "is_valid_puzzle g = Inr (\<forall>grp \<in> set (spec_groups g b). distinct (filter (\<lambda>v. v \<noteq> 0) grp))"
proof -
  have eq: "(\<not> length ds \<noteq> card (set ds)) = distinct ds" for ds :: "int list"
    using card_distinct [of ds] distinct_card [of ds] by auto
  show ?thesis
    unfolding is_valid_puzzle_def Let_def groups_wf(1) [OF assms] sum.case groups_wf(2) [OF assms] eq
    by (simp only: list_all_iff)
qed

text \<open>
  Claim C7. For a grid of width \<open>N = b * b\<close> with \<open>b > 0\<close>, \<^verbatim>\<open>is_valid_puzzle\<close> returns
  true if and only if no row, column or box holds a non-zero value more than once; how often
  \<open>0\<close> occurs in a group does not matter.
\<close>

theorem is_valid_puzzle_iff_no_duplicates:
  assumes "wf_grid g b"
  shows "is_valid_puzzle g
         = Inr (\<forall>grp \<in> set (spec_groups g b). \<forall>v. v \<noteq> 0 \<longrightarrow> count_list grp v \<le> 1)"
  by (simp only: is_valid_puzzle_wf [OF assms] distinct_filter_count)

theorem is_valid_puzzle_iff_no_duplicates_witness:
  "wf_grid [[1, 0, 0, 4], [0, 4, 0, 0], [0, 0, 0, 0], [4, 0, 0, 1 :: int]] 2
   \<and> is_valid_puzzle [[1, 0, 0, 4], [0, 4, 0, 0], [0, 0, 0, 0], [4, 0, 0, 1]] = Inr True
   \<and> list_all (\<lambda>grp. \<forall>v. v \<noteq> 0 \<longrightarrow> count_list grp v \<le> 1)
         (spec_groups [[1, 0, 0, 4], [0, 4, 0, 0], [0, 0, 0, 0], [4, 0, 0, 1 :: int]] 2)
   \<and> is_valid_puzzle [[1, 0, 0, 4], [0, 4, 0, 0], [0, 0, 1, 0], [4, 0, 0, 1]] = Inr False"
proof -
  let ?g = "[[1, 0, 0, 4], [0, 4, 0, 0], [0, 0, 0, 0], [4, 0, 0, 1 :: int]]"
  have wf: "wf_grid ?g 2" by (simp add: wf_grid_def)
  have s: "is_valid_puzzle ?g = Inr True" by code_simp
  have t: "is_valid_puzzle [[1, 0, 0, 4], [0, 4, 0, 0], [0, 0, 1, 0], [4, 0, 0, 1]] = Inr False"
    by code_simp
  from is_valid_puzzle_iff_no_duplicates [OF wf] s t wf show ?thesis by (simp add: list_all_iff)
qed

section \<open>The peer set\<close>

lemma set_enumerate_except:
  "set (map (\<lambda>(i, v). f v) (filter (\<lambda>(i, v). i \<noteq> k) (enumerate 0 xs)))
   = {f (xs ! i) | i. i < length xs \<and> i \<noteq> k}"
proof -
  have "set (filter (\<lambda>(i, v). i \<noteq> k) (enumerate 0 xs)) = {(i, xs ! i) | i. i < length xs \<and> i \<noteq> k}"
    by (auto simp: in_set_enumerate_eq)
  then have "set (map (\<lambda>(i, v). f v) (filter (\<lambda>(i, v). i \<noteq> k) (enumerate 0 xs)))
             = (\<lambda>(i, v). f v) ` {(i, xs ! i) | i. i < length xs \<and> i \<noteq> k}"
    by (simp only: set_map)
  also have "\<dots> = {f (xs ! i) | i. i < length xs \<and> i \<noteq> k}"
    by (auto simp: image_iff)
  finally show ?thesis .
qed

lemma box_range_iff:
  assumes "0 < b"
  shows "(y0 - y0 mod b \<le> y \<and> y < y0 - y0 mod b + b) \<longleftrightarrow> y div b = y0 div (b::nat)"
proof -
  have top: "y0 - y0 mod b = b * (y0 div b)" by (rule minus_mod_eq_mult_div)
  show ?thesis
  proof
    assume a: "y0 - y0 mod b \<le> y \<and> y < y0 - y0 mod b + b"
    show "y div b = y0 div b"
    proof (rule div_nat_eqI)
      show "b * (y0 div b) \<le> y" using a top by simp
      show "y < b * Suc (y0 div b)" using a top by simp
    qed
  next
    assume e: "y div b = y0 div b"
    have "b * (y div b) \<le> y" by simp
    moreover have "y < b * (y div b) + b"
      using assms by (metis add.commute dividend_less_times_div mult.commute)
    ultimately show "y0 - y0 mod b \<le> y \<and> y < y0 - y0 mod b + b"
      using top e by simp
  qed
qed

lemma same_box_in_range:
  assumes "0 < b" and "y0 < b * b" and "y div b = y0 div (b::nat)"
  shows "y < b * b"
proof -
  have "y0 div b < b" using assms(1,2) by (simp add: div_less_iff_less_mult)
  then have "y div b < b" using assms(3) by simp
  then show ?thesis using assms(1) by (simp add: div_less_iff_less_mult)
qed

lemma cell_py_wf:
  "wf_grid g b \<Longrightarrow> y < b * b \<Longrightarrow> x < b * b \<Longrightarrow> cell_py g y x = Inr (g ! y ! x)"
  by (simp add: cell_py_def nth_py_def wf_grid_def)

lemma get_bound_box_wf:
  "0 < b \<Longrightarrow> get_bound_box (y0, x0) (b * b) = Inr (y0 - y0 mod b, x0 - x0 mod b, b)"
  by (simp add: get_bound_box_def isqrt_square)

lemma comprehension_set:
  "set [(y, x). y \<leftarrow> ys, x \<leftarrow> xs, P y x] = {(y, x). y \<in> set ys \<and> x \<in> set xs \<and> P y x}"
  by auto

lemma box_scan_set:
  "set [(y, x). y \<leftarrow> [t..<t + b], x \<leftarrow> [l..<l + b], y \<noteq> y0 \<and> x \<noteq> x0]
   = {(y, x). t \<le> y \<and> y < t + b \<and> l \<le> x \<and> x < l + b \<and> y \<noteq> y0 \<and> x \<noteq> (x0::nat)}"
  unfolding comprehension_set by (simp add: conj_ac)

lemma get_peers_wf:
  assumes wf: "wf_grid g b" and y0: "y0 < b * b" and x0: "x0 < b * b"
  shows "get_peers g (y0, x0) = Inr (row_peers g b (y0, x0) \<union> col_peers g b (y0, x0) \<union> box_peers g b (y0, x0))"
proof -
  from wf have b: "0 < b" and len: "length g = b * b"
    and rows: "\<And>y. y < b * b \<Longrightarrow> length (g ! y) = b * b"
    by (auto simp: wf_grid_def)
  have r0: "nth_py g y0 = Inr (g ! y0)" using y0 len by (simp add: nth_py_def)
  have rowset: "set (map snd (filter (\<lambda>(x, cell). x \<noteq> x0) (enumerate 0 (g ! y0)))) = row_peers g b (y0, x0)"
  proof -
    have "snd = (\<lambda>(x :: nat, cell :: int). cell)" by (simp add: fun_eq_iff)
    then show ?thesis
      using set_enumerate_except [of "\<lambda>v. v" x0 "g ! y0"] rows [OF y0]
      by (simp only: row_peers_def fst_conv snd_conv)
  qed
  let ?others = "filter (\<lambda>(y, row). y \<noteq> y0) (enumerate 0 g)"
  have colread: "collect (map (\<lambda>(y, row). nth_py row x0) ?others) = Inr (map (\<lambda>(y, row). row ! x0) ?others)"
  proof (rule collect_Inr)
    fix p assume "p \<in> set ?others"
    then have "snd p \<in> set g" by (auto simp: in_set_enumerate_eq)
    then have "length (snd p) = b * b" using wf by (simp add: wf_grid_def)
    then show "(case p of (y, row) \<Rightarrow> nth_py row x0) = Inr (case p of (y, row) \<Rightarrow> row ! x0)"
      using x0 by (simp add: nth_py_def case_prod_unfold)
  qed
  have colset: "set (map (\<lambda>(y, row). row ! x0) ?others) = col_peers g b (y0, x0)"
    using set_enumerate_except [of "\<lambda>row. row ! x0" y0 g] len
    by (simp add: col_peers_def)
  let ?t = "y0 - y0 mod b" and ?l = "x0 - x0 mod b"
  let ?cells = "[(y, x). y \<leftarrow> [?t..<?t + b], x \<leftarrow> [?l..<?l + b], y \<noteq> y0 \<and> x \<noteq> x0]"
  have cellset: "set ?cells = {(y, x). y div b = y0 div b \<and> x div b = x0 div b \<and> y \<noteq> y0 \<and> x \<noteq> x0}"
    unfolding box_scan_set using box_range_iff [OF b] by auto
  have boxread: "collect (map (\<lambda>(y, x). cell_py g y x) ?cells) = Inr (map (\<lambda>(y, x). g ! y ! x) ?cells)"
  proof (rule collect_Inr)
    fix c assume "c \<in> set ?cells"
    then have "fst c div b = y0 div b" "snd c div b = x0 div b"
      unfolding cellset by auto
    then have "fst c < b * b" "snd c < b * b"
      using same_box_in_range [OF b y0] same_box_in_range [OF b x0] by auto
    then show "(case c of (y, x) \<Rightarrow> cell_py g y x) = Inr (case c of (y, x) \<Rightarrow> g ! y ! x)"
      using cell_py_wf [OF wf] by (simp add: case_prod_unfold)
  qed
  have boxset: "set (map (\<lambda>(y, x). g ! y ! x) ?cells) = box_peers g b (y0, x0)"
  proof -
    have "set (map (\<lambda>(y, x). g ! y ! x) ?cells) = (\<lambda>(y, x). g ! y ! x) ` set ?cells"
      by (simp only: set_map)
    also have "\<dots> = box_peers g b (y0, x0)"
      unfolding cellset box_peers_def
      using same_box_in_range [OF b y0] same_box_in_range [OF b x0]
      by (auto simp: image_iff)
    finally show ?thesis .
  qed
  show ?thesis
    unfolding get_peers_def prod.case r0 sum.case colread len get_bound_box_wf [OF b] boxread
      rowset colset boxset
    by (rule refl)
qed

lemma peer_values_eq:
  assumes b: "0 < b" and c: "in_grid b c"
  shows "row_peers g b c \<union> col_peers g b c \<union> box_peers g b c = peer_values g b c"
proof (rule set_eqI)
  fix v
  show "v \<in> row_peers g b c \<union> col_peers g b c \<union> box_peers g b c \<longleftrightarrow> v \<in> peer_values g b c"
  proof
    assume "v \<in> row_peers g b c \<union> col_peers g b c \<union> box_peers g b c"
    then consider (r) "v \<in> row_peers g b c" | (c) "v \<in> col_peers g b c" | (b) "v \<in> box_peers g b c"
      by blast
    then show "v \<in> peer_values g b c"
    proof cases
      case r
      then obtain x where x: "x < b * b" "x \<noteq> snd c" and v: "v = g ! fst c ! x"
        unfolding row_peers_def by blast
      have "in_grid b (fst c, x) \<and> is_peer b c (fst c, x) \<and> v = cell_val g (fst c, x)"
        using x v c by (cases c) (simp add: in_grid_def is_peer_def cell_val_def)
      then show ?thesis unfolding peer_values_def by blast
    next
      case c
      then obtain y where y: "y < b * b" "y \<noteq> fst c" and v: "v = g ! y ! snd c"
        unfolding col_peers_def by blast
      have "in_grid b (y, snd c) \<and> is_peer b c (y, snd c) \<and> v = cell_val g (y, snd c)"
        using y v \<open>in_grid b c\<close> by (cases c) (simp add: in_grid_def is_peer_def cell_val_def)
      then show ?thesis unfolding peer_values_def by blast
    next
      case b
      then obtain y x where yx: "y < b * b" "x < b * b" "y div b = fst c div b"
          "x div b = snd c div b" "y \<noteq> fst c" "x \<noteq> snd c" and v: "v = g ! y ! x"
        unfolding box_peers_def by blast
      have "in_grid b (y, x) \<and> is_peer b c (y, x) \<and> v = cell_val g (y, x)"
        using yx v by (cases c) (simp add: in_grid_def is_peer_def same_box_def cell_val_def)
      then show ?thesis unfolding peer_values_def by blast
    qed
  next
    assume "v \<in> peer_values g b c"
    then obtain c' where c': "in_grid b c'" "is_peer b c c'" and v: "v = cell_val g c'"
      unfolding peer_values_def by blast
    obtain y x where cyx: "c' = (y, x)" by (cases c')
    from c' cyx have yx: "y < b * b" "x < b * b" by (simp_all add: in_grid_def)
    show "v \<in> row_peers g b c \<union> col_peers g b c \<union> box_peers g b c"
    proof (cases "y = fst c")
      case True
      then have "x \<noteq> snd c" using c'(2) cyx by (cases c) (auto simp: is_peer_def)
      then have "v \<in> row_peers g b c"
        unfolding row_peers_def using yx v cyx True by (auto simp: cell_val_def)
      then show ?thesis by blast
    next
      case False
      show ?thesis
      proof (cases "x = snd c")
        case True
        then have "v \<in> col_peers g b c"
          unfolding col_peers_def using yx v cyx False by (auto simp: cell_val_def)
        then show ?thesis by blast
      next
        case xF: False
        then have "same_box b c c'" using c'(2) cyx False by (simp add: is_peer_def)
        then have "y div b = fst c div b" "x div b = snd c div b"
          using cyx by (simp_all add: same_box_def)
        then have "v \<in> box_peers g b c"
          unfolding box_peers_def using yx v cyx False xF by (auto simp: cell_val_def)
        then show ?thesis by blast
      qed
    qed
  qed
qed

lemma get_peers_values:
  assumes "wf_grid g b" and "y < b * b" and "x < b * b"
  shows "get_peers g (y, x) = Inr (peer_values g b (y, x))"
proof -
  have "0 < b" using assms(1) by (simp add: wf_grid_def)
  moreover have "in_grid b (y, x)" using assms(2,3) by (simp add: in_grid_def)
  ultimately show ?thesis
    using get_peers_wf [OF assms] peer_values_eq [of b "(y, x)" g] by simp
qed

text \<open>
  Claim C5. For a grid of width \<open>N = b * b\<close> and a cell \<open>(y, x)\<close> inside it, \<^verbatim>\<open>get_peers\<close>
  returns exactly the union of the values of row \<open>y\<close> outside column \<open>x\<close>, the values of
  column \<open>x\<close> outside row \<open>y\<close>, and the values of the cells of the box of \<open>(y, x)\<close> whose
  row differs from \<open>y\<close> and whose column differs from \<open>x\<close>; and a digit \<open>d\<close> in \<open>[1, N]\<close>
  that no peer of the cell holds is not in the returned set.
\<close>

theorem get_peers_spec:
  assumes "wf_grid g b" and "y < b * b" and "x < b * b"
  shows "get_peers g (y, x)
           = Inr (row_peers g b (y, x) \<union> col_peers g b (y, x) \<union> box_peers g b (y, x))
         \<and> (\<forall>d S. 1 \<le> d \<and> d \<le> int (b * b)
                  \<and> (\<forall>c'. in_grid b c' \<and> is_peer b (y, x) c' \<longrightarrow> cell_val g c' \<noteq> d)
                  \<and> get_peers g (y, x) = Inr S
                \<longrightarrow> d \<notin> S)"
proof
  show "get_peers g (y, x)
           = Inr (row_peers g b (y, x) \<union> col_peers g b (y, x) \<union> box_peers g b (y, x))"
    using assms by (rule get_peers_wf)
next
  show "\<forall>d S. 1 \<le> d \<and> d \<le> int (b * b)
                  \<and> (\<forall>c'. in_grid b c' \<and> is_peer b (y, x) c' \<longrightarrow> cell_val g c' \<noteq> d)
                  \<and> get_peers g (y, x) = Inr S
                \<longrightarrow> d \<notin> S"
  proof (intro allI impI)
    fix d S
    assume a: "1 \<le> d \<and> d \<le> int (b * b)
                  \<and> (\<forall>c'. in_grid b c' \<and> is_peer b (y, x) c' \<longrightarrow> cell_val g c' \<noteq> d)
                  \<and> get_peers g (y, x) = Inr S"
    then have "S = peer_values g b (y, x)" using get_peers_values [OF assms] by simp
    then show "d \<notin> S" using a unfolding peer_values_def by blast
  qed
qed

theorem get_peers_spec_witness:
  "wf_grid [[1, 2, 3, 4], [3, 4, 0, 2], [2, 1, 4, 3], [4, 3, 2, 1 :: int]] 2
   \<and> (1 :: nat) < 2 * 2 \<and> (2 :: nat) < 2 * 2
   \<and> get_peers [[1, 2, 3, 4], [3, 4, 0, 2], [2, 1, 4, 3], [4, 3, 2, 1]] (1, 2) = Inr {2, 3, 4}
   \<and> row_peers [[1, 2, 3, 4], [3, 4, 0, 2], [2, 1, 4, 3], [4, 3, 2, 1]] 2 (1, 2)
       \<union> col_peers [[1, 2, 3, 4], [3, 4, 0, 2], [2, 1, 4, 3], [4, 3, 2, 1]] 2 (1, 2)
       \<union> box_peers [[1, 2, 3, 4], [3, 4, 0, 2], [2, 1, 4, 3], [4, 3, 2, 1]] 2 (1, 2) = {2, 3, 4}
   \<and> (1 :: int) \<notin> {2, 3, 4}"
proof -
  let ?g = "[[1, 2, 3, 4], [3, 4, 0, 2], [2, 1, 4, 3], [4, 3, 2, 1 :: int]]"
  have wf: "wf_grid ?g 2" by (simp add: wf_grid_def)
  have y: "(1 :: nat) < 2 * 2" and x: "(2 :: nat) < 2 * 2" by simp_all
  have e: "get_peers ?g (1, 2) = Inr {2, 3, 4}" by code_simp
  from get_peers_spec [OF wf y x] e wf show ?thesis by simp
qed

section \<open>Grid files\<close>

lemma ucd_ok_basic: "ucd_ok basic_ucd"
  by (auto simp: ucd_ok_def basic_ucd_def split: if_splits)

lemma ucd_ok_digit: "ucd_ok u \<Longrightarrow> 48 \<le> c \<Longrightarrow> c \<le> 57 \<Longrightarrow> to_decimal u c = Some (c - 48)"
  by (simp add: ucd_ok_def)

lemma ucd_ok_width: "ucd_ok u \<Longrightarrow> to_decimal u c = Some w \<Longrightarrow> w < 10"
  unfolding ucd_ok_def by blast

lemma ucd_ok_space: "ucd_ok u \<Longrightarrow> is_space u c \<Longrightarrow> to_decimal u c = None"
  unfolding ucd_ok_def by blast

lemma ucd_ok_ascii_space: "ucd_ok u \<Longrightarrow> is_space u 10 \<and> is_space u 32"
  by (simp add: ucd_ok_def)

lemma ucd_ok_digit_not_space: "ucd_ok u \<Longrightarrow> 48 \<le> c \<Longrightarrow> c \<le> 57 \<Longrightarrow> \<not> is_space u c"
  using ucd_ok_digit [of u c] ucd_ok_space [of u c] by auto

lemma str_nat_digit: "n < 10 \<Longrightarrow> str_nat n = [48 + n]"
  by (simp add: str_nat.simps)

lemma valid_digits_iff:
  assumes "w < 10"
  shows "[c] \<in> set (map str_nat [0..<w + 1]) \<longleftrightarrow> 48 \<le> c \<and> c \<le> 48 + w"
proof
  assume "[c] \<in> set (map str_nat [0..<w + 1])"
  then have "[c] \<in> str_nat ` set [0..<w + 1]" by (simp only: set_map)
  then obtain i where "i \<in> set [0..<w + 1]" and c: "[c] = str_nat i" by (rule imageE)
  then have i: "i \<le> w" by auto
  from i assms have "i < 10" by simp
  with c have "c = 48 + i" by (simp add: str_nat_digit)
  then show "48 \<le> c \<and> c \<le> 48 + w" using i by simp
next
  assume a: "48 \<le> c \<and> c \<le> 48 + w"
  define i where "i = c - 48"
  from a assms have i: "i \<le> w" "i < 10" "c = 48 + i" by (auto simp: i_def)
  then have "[c] = str_nat i" by (simp add: str_nat_digit)
  moreover have "i \<in> set [0..<w + 1]" using i by auto
  ultimately show "[c] \<in> set (map str_nat [0..<w + 1])" by (metis image_eqI set_map)
qed

lemma flatten_cells_char:
  "flatten_cells u V cs =
     (if \<exists>ch \<in> set cs. \<not> is_space u ch \<and> [ch] \<notin> V then Inl IOError
      else Inr (map (\<lambda>ch. PStr [ch]) (filter (\<lambda>ch. \<not> is_space u ch) cs)))"
  by (induction cs) auto

lemma split_list_square:
  "0 < w \<Longrightarrow> length lst = w ^ 2 \<Longrightarrow> split_list lst w = Inr (rows_of lst w)"
  by (simp add: split_list_def power2_eq_square range_step_square rows_of_def slice_def comp_def)

lemma split_list_zero: "split_list lst 0 = Inl (ValueError RangeStepZero)"
  by (simp add: split_list_def range_step_def)

lemma read_grid_no_digit:
  "to_decimal u c = None \<Longrightarrow> read_grid u (c # rest) = Inl (ValueError InvalidLiteral)"
  by (simp add: read_grid_def int_of_char_def)

lemma read_grid_char:
  assumes ok: "ucd_ok u" and w: "to_decimal u c = Some w"
  shows "read_grid u (c # rest) =
     (if \<exists>ch \<in> set rest. bad_char u w ch then Inl IOError
      else if length (cell_chars u rest) \<noteq> w ^ 2 then Inl (ValueError CellCount)
      else if w = 0 then Inl (ValueError RangeStepZero)
      else Inr (rows_of (map (\<lambda>ch. PStr [ch]) (cell_chars u rest)) w))"
proof -
  have w10: "w < 10" using ok w by (rule ucd_ok_width)
  have fl: "flatten_cells u (set (map str_nat [0..<w + 1])) rest =
     (if \<exists>ch \<in> set rest. bad_char u w ch then Inl IOError
      else Inr (map (\<lambda>ch. PStr [ch]) (cell_chars u rest)))"
    by (simp only: flatten_cells_char valid_digits_iff [OF w10] bad_char_def cell_chars_def)
  show ?thesis
    apply (simp only: read_grid_def list.case int_of_char_def w option.case sum.case fl)
    apply (auto simp: split_list_zero split_list_square)
    done
qed

lemma rows_of_shape:
  "length cells = w ^ 2 \<Longrightarrow> length (rows_of cells w) = w \<and> (\<forall>row \<in> set (rows_of cells w). length row = w)"
proof -
  assume len: "length cells = w ^ 2"
  have "length (take w (drop (k * w) cells)) = w" if "k < w" for k
  proof -
    have "k * w + w \<le> w * w" using box_index_bound [of k w "w - 1"] that by simp
    then show ?thesis using len by (simp add: power2_eq_square)
  qed
  then show ?thesis by (auto simp: rows_of_def)
qed

lemma read_grid_result_shape:
  assumes ok: "ucd_ok u" and r: "read_grid u (c # rest) = Inr g"
  shows "\<exists>w. to_decimal u c = Some w \<and> length g = w \<and> (\<forall>row \<in> set g. length row = w)"
proof (cases "to_decimal u c")
  case None
  then show ?thesis using r by (simp add: read_grid_no_digit)
next
  case (Some w)
  let ?cells = "map (\<lambda>ch. PStr [ch]) (cell_chars u rest)"
  from r have len: "length ?cells = w ^ 2" and g: "g = rows_of ?cells w"
    unfolding read_grid_char [OF ok Some] by (auto split: if_splits)
  from rows_of_shape [OF len] g Some show ?thesis by simp
qed

lemma cell_chars_idem: "cell_chars u (cell_chars u rest) = cell_chars u rest"
  by (simp add: cell_chars_def)

lemma bad_char_cell_chars:
  "(\<exists>ch \<in> set (cell_chars u rest). bad_char u w ch) = (\<exists>ch \<in> set rest. bad_char u w ch)"
  by (auto simp: cell_chars_def bad_char_def)

lemma read_grid_ignores_space:
  assumes ok: "ucd_ok u"
  shows "read_grid u (c # rest) = read_grid u (c # cell_chars u rest)"
proof (cases "to_decimal u c")
  case None
  then show ?thesis by (simp add: read_grid_no_digit)
next
  case (Some w)
  show ?thesis
    by (simp only: read_grid_char [OF ok Some] cell_chars_idem bad_char_cell_chars)
qed

lemma basic_decimal:
  "to_decimal basic_ucd c =
     (if 48 \<le> c \<and> c \<le> 57 then Some (c - 48)
      else if 1632 \<le> c \<and> c \<le> 1641 then Some (c - 1632) else None)"
  by (simp add: basic_ucd_def)

lemma basic_space:
  "is_space basic_ucd c =
     (c \<in> {9, 10, 11, 12, 13, 28, 29, 30, 31, 32, 133, 160, 5760, 8232, 8233, 8239, 8287, 12288}
      \<or> (8192 \<le> c \<and> c \<le> 8202))"
  by (simp add: basic_ucd_def)

lemma rows_of_2: "rows_of [a, b, c, d] 2 = [[a, b], [c, d]]"
  by (simp add: rows_of_def numeral_2_eq_2)

lemma rows_of_1: "rows_of [a] (Suc 0) = [[a]]"
  by (simp add: rows_of_def)

lemma rows_of_3: "rows_of [a, b, c, d, e, f, g, h, i] 3 = [[a, b, c], [d, e, f], [g, h, i]]"
  by (simp add: rows_of_def numeral_3_eq_3)

lemma example_file:
  "write_grid [[PInt 1, PInt 2], [PInt 0, PInt 1]] = [50, 10, 49, 32, 32, 50, 10, 48, 32, 32, 49]"
  by (simp add: write_grid_def str_int_def str_nat_digit)

text \<open>
  Claim C3 (round trip). \<^verbatim>\<open>read_grid\<close> appends the characters of the file to its result, so
  the grid it returns holds one-character strings where the written grid held integers: for
  the raw grid \<open>[[1, 2], [0, 1]]\<close> the file is \<^verbatim>\<open>2\n1  2\n0  1\<close> and reading it back gives
  \<open>[['1', '2'], ['0', '1']]\<close>, which is not the original raw grid. This holds whatever the
  Unicode database is.
\<close>

theorem write_then_read_returns_strings:
  assumes "ucd_ok u"
  shows "read_grid u (write_grid [[PInt 1, PInt 2], [PInt 0, PInt 1]])
           = Inr [[PStr (codes ''1''), PStr (codes ''2'')], [PStr (codes ''0''), PStr (codes ''1'')]]
         \<and> read_grid u (write_grid [[PInt 1, PInt 2], [PInt 0, PInt 1]])
           \<noteq> Inr [[PInt 1, PInt 2], [PInt 0, PInt 1]]"
proof -
  let ?rest = "[10, 49, 32, 32, 50, 10, 48, 32, 32, 49]"
  have w: "to_decimal u 50 = Some 2" using ucd_ok_digit [OF assms, of 50] by simp
  have sp: "is_space u 10" "is_space u 32" using ucd_ok_ascii_space [OF assms] by simp_all
  have ns: "\<not> is_space u 48" "\<not> is_space u 49" "\<not> is_space u 50"
    using ucd_ok_digit_not_space [OF assms] by simp_all
  have cc: "cell_chars u ?rest = [49, 50, 48, 49]" by (simp add: cell_chars_def sp ns)
  have nb: "\<not> (\<exists>ch \<in> set ?rest. bad_char u 2 ch)" by (simp add: bad_char_def sp)
  have "read_grid u (50 # ?rest) = Inr [[PStr [49], PStr [50]], [PStr [48], PStr [49]]]"
    unfolding read_grid_char [OF assms w] using nb by (simp add: cc rows_of_2)
  then show ?thesis by (simp add: example_file codes_def)
qed

theorem write_then_read_returns_strings_witness:
  "ucd_ok basic_ucd
   \<and> read_grid basic_ucd (write_grid [[PInt 1, PInt 2], [PInt 0, PInt 1]])
       = Inr [[PStr (codes ''1''), PStr (codes ''2'')], [PStr (codes ''0''), PStr (codes ''1'')]]
   \<and> read_grid basic_ucd (write_grid [[PInt 1, PInt 2], [PInt 0, PInt 1]])
       \<noteq> Inr [[PInt 1, PInt 2], [PInt 0, PInt 1]]"
  using write_then_read_returns_strings [OF ucd_ok_basic] ucd_ok_basic by blast

text \<open>
  Claim C4, as stated, fails: the width is taken from the first character of the file, and a
  file whose encoding is preceded by a space is rejected by \<^verbatim>\<open>int\<close>.
\<close>

theorem read_grid_leading_space_rejected:
  "read_grid basic_ucd (codes ''11'') = Inr [[PStr (codes ''1'')]]
   \<and> read_grid basic_ucd (codes '' 11'') = Inl (ValueError InvalidLiteral)"
proof
  have w: "to_decimal basic_ucd 49 = Some 1" by (simp add: basic_decimal)
  show "read_grid basic_ucd (codes ''11'') = Inr [[PStr (codes ''1'')]]"
    by (simp add: codes_def read_grid_char [OF ucd_ok_basic w] bad_char_def cell_chars_def
          basic_space rows_of_1)
  have n: "to_decimal basic_ucd 32 = None" by (simp add: basic_decimal)
  show "read_grid basic_ucd (codes '' 11'') = Inl (ValueError InvalidLiteral)"
    by (simp add: codes_def read_grid_no_digit [OF n])
qed

text \<open>
  Claim C4, amended. \<^verbatim>\<open>read_grid\<close> takes the grid width from the first character of the
  file. A file that is a valid encoding from its first character on (a decimal digit of value
  \<open>w \<ge> 1\<close>, then whitespace and digits \<^verbatim>\<open>0\<close> to \<^verbatim>\<open>str(w)\<close> only, \<open>w\<^sup>2\<close> digits in all) is parsed
  successfully with that width: the result is the digits cut into \<open>w\<close> rows of \<open>w\<close> cells.
  Whitespace anywhere among the characters after the first is ignored entirely. A file that
  starts with whitespace is rejected with \<^verbatim>\<open>ValueError\<close>, and every grid that is returned has as
  many rows, and as many cells in every row, as the first character says.
\<close>

theorem read_grid_width_first_char:
  assumes "ucd_ok u"
  shows "(to_decimal u c = Some w \<and> 0 < w \<and> \<not> (\<exists>ch \<in> set rest. bad_char u w ch)
            \<and> length (cell_chars u rest) = w ^ 2
          \<longrightarrow> read_grid u (c # rest) = Inr (rows_of (map (\<lambda>ch. PStr [ch]) (cell_chars u rest)) w))
         \<and> read_grid u (c # rest) = read_grid u (c # cell_chars u rest)
         \<and> (is_space u c \<longrightarrow> read_grid u (c # rest) = Inl (ValueError InvalidLiteral))
         \<and> (\<forall>g. read_grid u (c # rest) = Inr g \<longrightarrow>
               (\<exists>w. to_decimal u c = Some w \<and> length g = w \<and> (\<forall>row \<in> set g. length row = w)))"
proof (intro conjI)
  show "to_decimal u c = Some w \<and> 0 < w \<and> \<not> (\<exists>ch \<in> set rest. bad_char u w ch)
            \<and> length (cell_chars u rest) = w ^ 2
          \<longrightarrow> read_grid u (c # rest) = Inr (rows_of (map (\<lambda>ch. PStr [ch]) (cell_chars u rest)) w)"
  proof
    assume a: "to_decimal u c = Some w \<and> 0 < w \<and> \<not> (\<exists>ch \<in> set rest. bad_char u w ch)
            \<and> length (cell_chars u rest) = w ^ 2"
    then have w: "to_decimal u c = Some w" by simp
    show "read_grid u (c # rest) = Inr (rows_of (map (\<lambda>ch. PStr [ch]) (cell_chars u rest)) w)"
      unfolding read_grid_char [OF assms w] using a by simp
  qed
  show "read_grid u (c # rest) = read_grid u (c # cell_chars u rest)"
    using assms by (rule read_grid_ignores_space)
  show "is_space u c \<longrightarrow> read_grid u (c # rest) = Inl (ValueError InvalidLiteral)"
    using ucd_ok_space [OF assms] by (simp add: read_grid_no_digit)
  show "\<forall>g. read_grid u (c # rest) = Inr g \<longrightarrow>
               (\<exists>w. to_decimal u c = Some w \<and> length g = w \<and> (\<forall>row \<in> set g. length row = w))"
    using read_grid_result_shape [OF assms] by blast
qed

theorem read_grid_width_first_char_witness:
  "ucd_ok basic_ucd
   \<and> to_decimal basic_ucd 50 = Some 2 \<and> (0 :: nat) < 2
   \<and> \<not> list_ex (bad_char basic_ucd 2) (codes '' 12 01'')
   \<and> length (cell_chars basic_ucd (codes '' 12 01'')) = 2 ^ 2
   \<and> read_grid basic_ucd (codes ''2 12 01'')
       = Inr [[PStr (codes ''1''), PStr (codes ''2'')], [PStr (codes ''0''), PStr (codes ''1'')]]
   \<and> read_grid basic_ucd (codes ''2 12 01'') = read_grid basic_ucd (codes ''21201'')
   \<and> is_space basic_ucd 32
   \<and> read_grid basic_ucd (codes '' 21201'') = Inl (ValueError InvalidLiteral)
   \<and> to_decimal basic_ucd 1635 = Some 3
   \<and> read_grid basic_ucd (1635 # codes ''123 231 312'')
       = Inr [[PStr (codes ''1''), PStr (codes ''2''), PStr (codes ''3'')],
              [PStr (codes ''2''), PStr (codes ''3''), PStr (codes ''1'')],
              [PStr (codes ''3''), PStr (codes ''1''), PStr (codes ''2'')]]"
proof -
  note ok = ucd_ok_basic
  have w: "to_decimal basic_ucd 50 = Some 2" and w3: "to_decimal basic_ucd 1635 = Some 3"
    and sp: "is_space basic_ucd 32"
    by (simp_all add: basic_decimal basic_space)
  have nb: "\<not> (\<exists>ch \<in> set (codes '' 12 01''). bad_char basic_ucd 2 ch)"
    by (simp add: codes_def bad_char_def basic_space)
  have cc: "cell_chars basic_ucd (codes '' 12 01'') = codes ''1201''"
    by (simp add: codes_def cell_chars_def basic_space)
  have len: "length (cell_chars basic_ucd (codes '' 12 01'')) = 2 ^ 2"
    unfolding cc by (simp add: codes_def)
  have rows: "rows_of (map (\<lambda>ch. PStr [ch]) (cell_chars basic_ucd (codes '' 12 01''))) 2
              = [[PStr (codes ''1''), PStr (codes ''2'')], [PStr (codes ''0''), PStr (codes ''1'')]]"
    unfolding cc by (simp add: codes_def rows_of_2)
  have c2: "codes ''2 12 01'' = 50 # codes '' 12 01''" "codes ''21201'' = 50 # codes ''1201''"
    "codes '' 21201'' = 32 # codes ''21201''"
    by (simp_all add: codes_def)
  have z: "(0 :: nat) < 2" and z3: "(0 :: nat) < 3" by simp_all
  note t = read_grid_width_first_char [OF ok, of 50 2 "codes '' 12 01''"]
  have a: "read_grid basic_ucd (codes ''2 12 01'')
       = Inr [[PStr (codes ''1''), PStr (codes ''2'')], [PStr (codes ''0''), PStr (codes ''1'')]]"
    using t w z nb len unfolding c2 rows by blast
  have b: "read_grid basic_ucd (codes ''2 12 01'') = read_grid basic_ucd (codes ''21201'')"
    using t unfolding c2 cc by blast
  have c: "read_grid basic_ucd (codes '' 21201'') = Inl (ValueError InvalidLiteral)"
    using read_grid_width_first_char [OF ok, of 32 0 "codes ''21201''"] sp unfolding c2 by blast
  have nb3: "\<not> (\<exists>ch \<in> set (codes ''123 231 312''). bad_char basic_ucd 3 ch)"
    by (simp add: codes_def bad_char_def basic_space)
  have cc3: "cell_chars basic_ucd (codes ''123 231 312'') = codes ''123231312''"
    by (simp add: codes_def cell_chars_def basic_space)
  have len3: "length (cell_chars basic_ucd (codes ''123 231 312'')) = 3 ^ 2"
    unfolding cc3 by (simp add: codes_def)
  have rows3: "rows_of (map (\<lambda>ch. PStr [ch]) (cell_chars basic_ucd (codes ''123 231 312''))) 3
       = [[PStr (codes ''1''), PStr (codes ''2''), PStr (codes ''3'')],
              [PStr (codes ''2''), PStr (codes ''3''), PStr (codes ''1'')],
              [PStr (codes ''3''), PStr (codes ''1''), PStr (codes ''2'')]]"
    unfolding cc3 by (simp add: codes_def rows_of_3)
  have d: "read_grid basic_ucd (1635 # codes ''123 231 312'')
       = Inr [[PStr (codes ''1''), PStr (codes ''2''), PStr (codes ''3'')],
              [PStr (codes ''2''), PStr (codes ''3''), PStr (codes ''1'')],
              [PStr (codes ''3''), PStr (codes ''1''), PStr (codes ''2'')]]"
    using read_grid_width_first_char [OF ok, of 1635 3 "codes ''123 231 312''"] w3 z3 nb3 len3
    unfolding rows3 by blast
  have nbl: "\<not> list_ex (bad_char basic_ucd 2) (codes '' 12 01'')"
    unfolding list_ex_iff by (rule nb)
  from ok w z nbl len a b sp c w3 d show ?thesis by blast
qed

text \<open>
  Claim C8, as stated, fails: \<^verbatim>\<open>read_grid\<close> raises in further situations, and the check of
  the characters comes first. An empty file raises \<^verbatim>\<open>IndexError\<close>; a first character that is
  not a decimal digit raises the \<^verbatim>\<open>ValueError\<close> of \<^verbatim>\<open>int\<close>; the file \<^verbatim>\<open>2 1 9\<close>, whose digit count
  is not \<open>4\<close>, raises \<^verbatim>\<open>IOError\<close> and not \<^verbatim>\<open>ValueError\<close>; and the file \<^verbatim>\<open>0\<close>, whose digit count
  \<open>0\<close> equals \<open>0\<^sup>2\<close>, raises the \<^verbatim>\<open>ValueError\<close> of \<^verbatim>\<open>range\<close> with step \<open>0\<close>.
\<close>

theorem read_grid_other_errors:
  "read_grid basic_ucd (codes '''') = Inl IndexError
   \<and> read_grid basic_ucd (codes ''x'') = Inl (ValueError InvalidLiteral)
   \<and> read_grid basic_ucd (codes ''2 1 9'') = Inl IOError
   \<and> read_grid basic_ucd (codes ''0'') = Inl (ValueError RangeStepZero)"
proof (intro conjI)
  show "read_grid basic_ucd (codes '''') = Inl IndexError"
    by (simp add: codes_def read_grid_def)
  have n: "to_decimal basic_ucd 120 = None" by (simp add: basic_decimal)
  show "read_grid basic_ucd (codes ''x'') = Inl (ValueError InvalidLiteral)"
    by (simp add: codes_def read_grid_no_digit [OF n])
  have w: "to_decimal basic_ucd 50 = Some 2" by (simp add: basic_decimal)
  show "read_grid basic_ucd (codes ''2 1 9'') = Inl IOError"
    by (simp add: codes_def read_grid_char [OF ucd_ok_basic w] bad_char_def basic_space)
  have z: "to_decimal basic_ucd 48 = Some 0" by (simp add: basic_decimal)
  show "read_grid basic_ucd (codes ''0'') = Inl (ValueError RangeStepZero)"
    by (simp add: codes_def read_grid_char [OF ucd_ok_basic z] cell_chars_def)
qed

text \<open>
  Claim C8, amended. An empty file raises \<^verbatim>\<open>IndexError\<close> and a first character that is not a
  decimal digit raises \<^verbatim>\<open>ValueError\<close>. For a first character that is a decimal digit of value
  \<open>w\<close>: \<^verbatim>\<open>read_grid\<close> raises \<^verbatim>\<open>IOError\<close> exactly when some later character is neither
  whitespace nor one of the digits \<^verbatim>\<open>0\<close> to \<^verbatim>\<open>str(w)\<close>; it raises the \<^verbatim>\<open>ValueError\<close> of the cell
  count exactly when there is no such character and the number of digits after the first
  character differs from \<open>w\<^sup>2\<close>; and when there is no such character, the count is \<open>w\<^sup>2\<close>
  and \<open>w \<ge> 1\<close>, it returns the digits cut into \<open>w\<close> rows of \<open>w\<close> cells. Whatever is
  returned is a complete grid: no error comes with a grid. (Nothing is said of width \<open>0\<close>
  with no digits after it.)
\<close>

theorem read_grid_errors:
  assumes "ucd_ok u"
  shows "read_grid u [] = Inl IndexError
   \<and> (to_decimal u c = None \<longrightarrow> read_grid u (c # rest) = Inl (ValueError InvalidLiteral))
   \<and> (to_decimal u c = Some w \<and> (\<exists>ch \<in> set rest. bad_char u w ch)
        \<longrightarrow> read_grid u (c # rest) = Inl IOError)
   \<and> (to_decimal u c = Some w \<and> \<not> (\<exists>ch \<in> set rest. bad_char u w ch)
        \<and> length (cell_chars u rest) \<noteq> w ^ 2
        \<longrightarrow> read_grid u (c # rest) = Inl (ValueError CellCount))
   \<and> (to_decimal u c = Some w \<and> \<not> (\<exists>ch \<in> set rest. bad_char u w ch)
        \<and> length (cell_chars u rest) = w ^ 2 \<and> 0 < w
        \<longrightarrow> read_grid u (c # rest) = Inr (rows_of (map (\<lambda>ch. PStr [ch]) (cell_chars u rest)) w))
   \<and> (read_grid u (c # rest) = Inl IOError
        \<longrightarrow> (\<exists>w. to_decimal u c = Some w \<and> (\<exists>ch \<in> set rest. bad_char u w ch)))
   \<and> (read_grid u (c # rest) = Inl (ValueError CellCount)
        \<longrightarrow> (\<exists>w. to_decimal u c = Some w \<and> \<not> (\<exists>ch \<in> set rest. bad_char u w ch)
                  \<and> length (cell_chars u rest) \<noteq> w ^ 2))
   \<and> (\<forall>g. read_grid u (c # rest) = Inr g \<longrightarrow>
         (\<exists>w. to_decimal u c = Some w \<and> length g = w \<and> (\<forall>row \<in> set g. length row = w)))"
proof (intro conjI)
  note rc = read_grid_char [OF assms]
  show "read_grid u [] = Inl IndexError" by (simp add: read_grid_def)
  show "to_decimal u c = None \<longrightarrow> read_grid u (c # rest) = Inl (ValueError InvalidLiteral)"
    by (simp add: read_grid_no_digit)
  show "to_decimal u c = Some w \<and> (\<exists>ch \<in> set rest. bad_char u w ch)
        \<longrightarrow> read_grid u (c # rest) = Inl IOError"
    using rc [of c w rest] by auto
  show "to_decimal u c = Some w \<and> \<not> (\<exists>ch \<in> set rest. bad_char u w ch)
        \<and> length (cell_chars u rest) \<noteq> w ^ 2
        \<longrightarrow> read_grid u (c # rest) = Inl (ValueError CellCount)"
    using rc [of c w rest] by auto
  show "to_decimal u c = Some w \<and> \<not> (\<exists>ch \<in> set rest. bad_char u w ch)
        \<and> length (cell_chars u rest) = w ^ 2 \<and> 0 < w
        \<longrightarrow> read_grid u (c # rest) = Inr (rows_of (map (\<lambda>ch. PStr [ch]) (cell_chars u rest)) w)"
    using rc [of c w rest] by auto
  show "read_grid u (c # rest) = Inl IOError
        \<longrightarrow> (\<exists>w. to_decimal u c = Some w \<and> (\<exists>ch \<in> set rest. bad_char u w ch))"
  proof (cases "to_decimal u c")
    case None
    then show ?thesis by (simp add: read_grid_no_digit)
  next
    case (Some v)
    show ?thesis unfolding rc [OF Some] using Some by (auto split: if_splits)
  qed
  show "read_grid u (c # rest) = Inl (ValueError CellCount)
        \<longrightarrow> (\<exists>w. to_decimal u c = Some w \<and> \<not> (\<exists>ch \<in> set rest. bad_char u w ch)
                  \<and> length (cell_chars u rest) \<noteq> w ^ 2)"
  proof (cases "to_decimal u c")
    case None
    then show ?thesis by (simp add: read_grid_no_digit)
  next
    case (Some v)
    show ?thesis unfolding rc [OF Some] using Some by (auto split: if_splits)
  qed
  show "\<forall>g. read_grid u (c # rest) = Inr g \<longrightarrow>
         (\<exists>w. to_decimal u c = Some w \<and> length g = w \<and> (\<forall>row \<in> set g. length row = w))"
    using read_grid_result_shape [OF assms] by blast
qed

theorem read_grid_errors_witness:
  "ucd_ok basic_ucd
   \<and> read_grid basic_ucd (codes ''4 1234 3412 2143 4329'') = Inl IOError
   \<and> read_grid basic_ucd (codes ''4 1234 3412 2143 432'') = Inl (ValueError CellCount)
   \<and> read_grid basic_ucd (codes ''x 1234'') = Inl (ValueError InvalidLiteral)
   \<and> read_grid basic_ucd (codes ''2 12 01'')
       = Inr [[PStr (codes ''1''), PStr (codes ''2'')], [PStr (codes ''0''), PStr (codes ''1'')]]
   \<and> read_grid basic_ucd (codes ''05'') = Inl IOError
   \<and> read_grid basic_ucd (codes ''00'') = Inl (ValueError CellCount)"
proof -
  note ok = ucd_ok_basic
  note ev = codes_def bad_char_def cell_chars_def basic_space
  have w4: "to_decimal basic_ucd 52 = Some 4" and w2: "to_decimal basic_ucd 50 = Some 2"
    and w0: "to_decimal basic_ucd 48 = Some 0" and x: "to_decimal basic_ucd 120 = None"
    by (simp_all add: basic_decimal)
  have c: "codes ''4 1234 3412 2143 4329'' = 52 # codes '' 1234 3412 2143 4329''"
    "codes ''4 1234 3412 2143 432'' = 52 # codes '' 1234 3412 2143 432''"
    "codes ''x 1234'' = 120 # codes '' 1234''"
    "codes ''2 12 01'' = 50 # codes '' 12 01''"
    "codes ''05'' = 48 # codes ''5''" "codes ''00'' = 48 # codes ''0''"
    by (simp_all add: codes_def)
  have a1: "\<exists>ch \<in> set (codes '' 1234 3412 2143 4329''). bad_char basic_ucd 4 ch"
    by (simp add: ev)
  have 1: "read_grid basic_ucd (codes ''4 1234 3412 2143 4329'') = Inl IOError"
    using read_grid_errors [OF ok, of 52 "codes '' 1234 3412 2143 4329''" 4] w4 a1
    unfolding c by blast
  have a2: "\<not> (\<exists>ch \<in> set (codes '' 1234 3412 2143 432''). bad_char basic_ucd 4 ch)"
    "length (cell_chars basic_ucd (codes '' 1234 3412 2143 432'')) \<noteq> 4 ^ 2"
    by (simp_all add: ev)
  have 2: "read_grid basic_ucd (codes ''4 1234 3412 2143 432'') = Inl (ValueError CellCount)"
    using read_grid_errors [OF ok, of 52 "codes '' 1234 3412 2143 432''" 4] w4 a2
    unfolding c by blast
  have 3: "read_grid basic_ucd (codes ''x 1234'') = Inl (ValueError InvalidLiteral)"
    using read_grid_errors [OF ok, of 120 "codes '' 1234''"] x unfolding c by blast
  have a4: "\<not> (\<exists>ch \<in> set (codes '' 12 01''). bad_char basic_ucd 2 ch)"
    "length (cell_chars basic_ucd (codes '' 12 01'')) = 2 ^ 2" "(0 :: nat) < 2"
    by (simp_all add: ev)
  have r4: "rows_of (map (\<lambda>ch. PStr [ch]) (cell_chars basic_ucd (codes '' 12 01''))) 2
      = [[PStr (codes ''1''), PStr (codes ''2'')], [PStr (codes ''0''), PStr (codes ''1'')]]"
    by (simp add: ev rows_of_2)
  have 4: "read_grid basic_ucd (codes ''2 12 01'')
       = Inr [[PStr (codes ''1''), PStr (codes ''2'')], [PStr (codes ''0''), PStr (codes ''1'')]]"
    using read_grid_errors [OF ok, of 50 "codes '' 12 01''" 2] w2 a4
    unfolding c r4 by blast
  have a5: "\<exists>ch \<in> set (codes ''5''). bad_char basic_ucd 0 ch" by (simp add: ev)
  have 5: "read_grid basic_ucd (codes ''05'') = Inl IOError"
    using read_grid_errors [OF ok, of 48 "codes ''5''" 0] w0 a5 unfolding c by blast
  have a6: "\<not> (\<exists>ch \<in> set (codes ''0''). bad_char basic_ucd 0 ch)"
    "length (cell_chars basic_ucd (codes ''0'')) \<noteq> 0 ^ 2"
    by (simp_all add: ev)
  have 6: "read_grid basic_ucd (codes ''00'') = Inl (ValueError CellCount)"
    using read_grid_errors [OF ok, of 48 "codes ''0''" 0] w0 a6 unfolding c by blast
  from ok 1 2 3 4 5 6 show ?thesis by blast
qed


end
